theory Spec2Isabelle
  imports Main "HOL-Library.Multiset"
begin

section \<open>The LRU cache with eviction callback (pkg/cache/lru/lru_with_eviction.go)\<close>

subsection \<open>Data model\<close>

text \<open>
  The Go struct \<open>evictable[K, V]\<close> is the payload stored in every list element.
  The field \<open>value\<close> is written \<open>value'\<close> here.
\<close>

record ('k, 'v) evictable =
  key :: 'k
  value' :: 'v

text \<open>
  The cache's \<open>metrics\<close> struct is declared in a file of package \<open>lru\<close> that is not part
  of the sources at hand; the cache only ever calls \<open>Inc()\<close> on its three counters
  \<open>hits\<close>, \<open>misses\<close> and \<open>evictions\<close>, so each counter is modelled by the number of
  \<open>Inc()\<close> calls it has received.
\<close>

record metrics =
  hits :: nat
  misses :: nat
  evictions :: nat

text \<open>
  A \<open>*list.Element\<close> is a pointer. Pointers are addresses (natural numbers); the
  \<open>Value\<close> field of the element an address points to lives in the store \<open>elemValue\<close>,
  so that the element reached through the map \<open>items\<close> and the element linked in
  \<open>evictList\<close> are the same object, as in the program. \<open>Value\<close> has the interface type
  \<open>any\<close>: \<open>None\<close> stands for an element whose \<open>Value\<close> does not hold an \<open>evictable[K, V]\<close>,
  on which the type assertion \<open>e.Value.(evictable[K, V])\<close> panics.

  \<open>container/list\<close> is the Go standard library; the doubly linked list is modelled by
  the sequence of its elements from front to back, and an element belongs to the list
  (\<open>e.list == l\<close>) iff it occurs in the sequence.

  Everything outside the cache that the eviction callback and the closer may act on is the
  \<open>world\<close>, of an arbitrary type \<open>'w\<close>: \<open>onEvicted\<close> is a function that transforms the
  world, \<open>closer\<close> transforms it and returns an error (\<open>None\<close> is the \<open>nil\<close> error).
  A \<open>nil\<close> function value is \<open>None\<close>. The callback gets the key and the value and acts on
  the world only: it does not call back into the cache it is called from. \<open>nextElem\<close> is
  the allocator: the address that the next \<open>PushFront\<close> returns.
\<close>

type_synonym element = nat

type_synonym error = string

record ('k, 'v, 'w) LRUWithEvict =
  metrics :: metrics
  closer :: "('w \<Rightarrow> error option \<times> 'w) option"
  maxEntries :: int
  onEvicted :: "('k \<Rightarrow> 'v \<Rightarrow> 'w \<Rightarrow> 'w) option"
  evictList :: "element list"
  items :: "'k \<rightharpoonup> element"
  elemValue :: "element \<rightharpoonup> ('k, 'v) evictable"
  nextElem :: element
  world :: 'w

datatype panic = TypeAssertionFailed | InconsistentCardinality

subsection \<open>The operations of \<open>container/list\<close> that the cache uses\<close>

definition MoveToFront :: "element list \<Rightarrow> element \<Rightarrow> element list" where
  "MoveToFront l e = (if e \<in> set l then e # remove1 e l else l)"

definition Back :: "element list \<Rightarrow> element option" where
  "Back l = (if l = [] then None else Some (last l))"

definition Len :: "element list \<Rightarrow> int" where
  "Len l = int (length l)"

subsection \<open>The cache operations\<close>

text \<open>
  \<open>NewWithEvict\<close>: \<open>unregister\<close> is the behaviour of \<open>m.unregister\<close> of the metrics created
  by \<open>newMetrics(reg)\<close> (not among the sources), \<open>w\<close> the world at construction time.
\<close>

definition NewWithEvict ::
  "('w \<Rightarrow> error option \<times> 'w) \<Rightarrow> int \<Rightarrow> ('k \<Rightarrow> 'v \<Rightarrow> 'w \<Rightarrow> 'w) option \<Rightarrow> 'w
    \<Rightarrow> ('k, 'v, 'w) LRUWithEvict" where
  "NewWithEvict unregister maxEntries' onEvicted' w =
     \<lparr> metrics = \<lparr> hits = 0, misses = 0, evictions = 0 \<rparr>,
       closer = Some unregister,
       maxEntries = maxEntries',
       onEvicted = onEvicted',
       evictList = [],
       items = Map.empty,
       elemValue = Map.empty,
       nextElem = 0,
       world = w \<rparr>"

definition removeElement ::
  "('k, 'v, 'w) LRUWithEvict \<Rightarrow> element \<Rightarrow> panic + ('k, 'v, 'w) LRUWithEvict" where
  "removeElement c e =
     (let c1 = c\<lparr> evictList := remove1 e (evictList c) \<rparr> in
      case elemValue c1 e of
        None \<Rightarrow> Inl TypeAssertionFailed
      | Some kv \<Rightarrow>
          let c2 = c1\<lparr> items := (items c1)(key kv := None) \<rparr>;
              c3 = (case onEvicted c2 of
                      None \<Rightarrow> c2
                    | Some f \<Rightarrow> c2\<lparr> world := f (key kv) (value' kv) (world c2) \<rparr>)
          in Inr (c3\<lparr> metrics := (metrics c3)\<lparr> evictions := Suc (evictions (metrics c3)) \<rparr> \<rparr>))"

definition removeOldest ::
  "('k, 'v, 'w) LRUWithEvict \<Rightarrow> panic + ('k, 'v, 'w) LRUWithEvict" where
  "removeOldest c =
     (case Back (evictList c) of
        Some e \<Rightarrow> removeElement c e
      | None \<Rightarrow> Inr c)"

definition Add ::
  "('k, 'v, 'w) LRUWithEvict \<Rightarrow> 'k \<Rightarrow> 'v \<Rightarrow> panic + ('k, 'v, 'w) LRUWithEvict" where
  "Add c k v =
     (case items c k of
        Some e \<Rightarrow>
          Inr (c\<lparr> evictList := MoveToFront (evictList c) e,
                  elemValue := (elemValue c)(e \<mapsto> \<lparr> key = k, value' = v \<rparr>) \<rparr>)
      | None \<Rightarrow>
          let e = nextElem c;
              c1 = c\<lparr> nextElem := Suc e,
                      elemValue := (elemValue c)(e \<mapsto> \<lparr> key = k, value' = v \<rparr>),
                      evictList := e # evictList c \<rparr>;
              c2 = c1\<lparr> items := (items c1)(k \<mapsto> e) \<rparr>
          in if maxEntries c2 \<noteq> 0 \<and> Len (evictList c2) > maxEntries c2
             then removeOldest c2
             else Inr c2)"

text \<open>
  \<open>Get\<close> and \<open>Peek\<close> return \<open>(value, ok)\<close>; the value \<open>None\<close> is the zero value of \<open>V\<close>
  that the bare \<open>return\<close> yields. The result comes with the state the call leaves behind,
  which for \<open>Peek\<close>, which assigns nothing, is the state it was called in.
\<close>

definition Get ::
  "('k, 'v, 'w) LRUWithEvict \<Rightarrow> 'k \<Rightarrow> panic + (('v option \<times> bool) \<times> ('k, 'v, 'w) LRUWithEvict)" where
  "Get c k =
     (case items c k of
        Some e \<Rightarrow>
          let c1 = c\<lparr> evictList := MoveToFront (evictList c) e \<rparr>;
              c2 = c1\<lparr> metrics := (metrics c1)\<lparr> hits := Suc (hits (metrics c1)) \<rparr> \<rparr>
          in (case elemValue c2 e of
                None \<Rightarrow> Inl TypeAssertionFailed
              | Some kv \<Rightarrow> Inr ((Some (value' kv), True), c2))
      | None \<Rightarrow>
          Inr ((None, False), c\<lparr> metrics := (metrics c)\<lparr> misses := Suc (misses (metrics c)) \<rparr> \<rparr>))"

definition Peek ::
  "('k, 'v, 'w) LRUWithEvict \<Rightarrow> 'k \<Rightarrow> panic + (('v option \<times> bool) \<times> ('k, 'v, 'w) LRUWithEvict)" where
  "Peek c k =
     (case items c k of
        Some e \<Rightarrow>
          (case elemValue c e of
             None \<Rightarrow> Inl TypeAssertionFailed
           | Some kv \<Rightarrow> Inr ((Some (value' kv), True), c))
      | None \<Rightarrow> Inr ((None, False), c))"

definition Remove ::
  "('k, 'v, 'w) LRUWithEvict \<Rightarrow> 'k \<Rightarrow> panic + ('k, 'v, 'w) LRUWithEvict" where
  "Remove c k =
     (case items c k of
        Some e \<Rightarrow> removeElement c e
      | None \<Rightarrow> Inr c)"

text \<open>
  \<open>Purge\<close> ranges over the map \<open>items\<close>. Go leaves the order of a \<open>range\<close> over a map
  unspecified, so the order is a parameter: the list \<open>ks\<close> of keys in the order in which
  this run of the loop visits them. The runtime visits every key of the map exactly once
  (each iteration deletes only the key it is at), which is \<open>range_order\<close>. The loop body
  is \<open>Purge_body\<close>; a key of \<open>ks\<close> that is not in the map is not visited.
\<close>

definition range_order :: "('k, 'v, 'w) LRUWithEvict \<Rightarrow> 'k list \<Rightarrow> bool" where
  "range_order c ks \<longleftrightarrow> distinct ks \<and> set ks = dom (items c)"

definition Purge_body ::
  "('k, 'v, 'w) LRUWithEvict \<Rightarrow> 'k \<Rightarrow> element \<Rightarrow> panic + ('k, 'v, 'w) LRUWithEvict" where
  "Purge_body c k e =
     (case onEvicted c of
        Some f \<Rightarrow>
          (case elemValue c e of
             None \<Rightarrow> Inl TypeAssertionFailed
           | Some kv \<Rightarrow>
               Inr (c\<lparr> world := f k (value' kv) (world c), items := (items c)(k := None) \<rparr>))
      | None \<Rightarrow> Inr (c\<lparr> items := (items c)(k := None) \<rparr>))"

fun Purge_loop ::
  "('k, 'v, 'w) LRUWithEvict \<Rightarrow> 'k list \<Rightarrow> panic + ('k, 'v, 'w) LRUWithEvict" where
  "Purge_loop c [] = Inr c"
| "Purge_loop c (k # ks) =
     (case items c k of
        None \<Rightarrow> Purge_loop c ks
      | Some e \<Rightarrow>
          (case Purge_body c k e of
             Inl p \<Rightarrow> Inl p
           | Inr c' \<Rightarrow> Purge_loop c' ks))"

definition Purge ::
  "('k, 'v, 'w) LRUWithEvict \<Rightarrow> 'k list \<Rightarrow> panic + ('k, 'v, 'w) LRUWithEvict" where
  "Purge c ks =
     (case Purge_loop c ks of
        Inl p \<Rightarrow> Inl p
      | Inr c' \<Rightarrow> Inr (c'\<lparr> evictList := [] \<rparr>))"

text \<open>\<open>Close\<close> returns the error of the closer together with the new state.\<close>

definition Close ::
  "('k, 'v, 'w) LRUWithEvict \<Rightarrow> 'k list
    \<Rightarrow> panic + (error option \<times> ('k, 'v, 'w) LRUWithEvict)" where
  "Close c ks =
     (case Purge c ks of
        Inl p \<Rightarrow> Inl p
      | Inr c' \<Rightarrow>
          (case closer c' of
             Some cl \<Rightarrow> (case cl (world c') of (err, w) \<Rightarrow> Inr (err, c'\<lparr> world := w \<rparr>))
           | None \<Rightarrow> Inr (None, c')))"

subsection \<open>Runs of the cache\<close>

text \<open>
  \<open>reachable_from c0 c\<close>: the cache that was in state \<open>c0\<close> is in state \<open>c\<close> after some
  finite sequence of calls of the six public operations, each of which returned. A state
  is \<open>reachable\<close> when a freshly constructed cache can get there.
\<close>

inductive reachable_from ::
  "('k, 'v, 'w) LRUWithEvict \<Rightarrow> ('k, 'v, 'w) LRUWithEvict \<Rightarrow> bool"
  for c0 :: "('k, 'v, 'w) LRUWithEvict" where
  r_start: "reachable_from c0 c0"
| r_add: "reachable_from c0 c \<Longrightarrow> Add c k v = Inr c' \<Longrightarrow> reachable_from c0 c'"
| r_get: "reachable_from c0 c \<Longrightarrow> Get c k = Inr (r, c') \<Longrightarrow> reachable_from c0 c'"
| r_peek: "reachable_from c0 c \<Longrightarrow> Peek c k = Inr (r, c') \<Longrightarrow> reachable_from c0 c'"
| r_remove: "reachable_from c0 c \<Longrightarrow> Remove c k = Inr c' \<Longrightarrow> reachable_from c0 c'"
| r_purge: "reachable_from c0 c \<Longrightarrow> range_order c ks \<Longrightarrow> Purge c ks = Inr c'
     \<Longrightarrow> reachable_from c0 c'"
| r_close: "reachable_from c0 c \<Longrightarrow> range_order c ks \<Longrightarrow> Close c ks = Inr (err, c')
     \<Longrightarrow> reachable_from c0 c'"

definition reachable :: "('k, 'v, 'w) LRUWithEvict \<Rightarrow> bool" where
  "reachable c \<longleftrightarrow> (\<exists>unregister n cb w. reachable_from (NewWithEvict unregister n cb w) c)"


fun peeks ::
  "('k, 'v, 'w) LRUWithEvict \<Rightarrow> 'k list \<Rightarrow> panic + ('k, 'v, 'w) LRUWithEvict" where
  "peeks c [] = Inr c"
| "peeks c (k # ks) = (case Peek c k of Inl p \<Rightarrow> Inl p | Inr (r, c') \<Rightarrow> peeks c' ks)"

text \<open>
  The live entries, from most to least recently used: the payloads of the elements of
  the eviction list.
\<close>

definition entries :: "('k, 'v, 'w) LRUWithEvict \<Rightarrow> ('k, 'v) evictable list" where
  "entries c = List.map_filter (elemValue c) (evictList c)"

text \<open>
  The representation invariant: the elements of the list are pairwise different and
  allocated, each holds an \<open>evictable\<close> whose key the map sends back to that element, and
  the map sends every key to an element of the list that holds that key.
\<close>

definition lru_inv :: "('k, 'v, 'w) LRUWithEvict \<Rightarrow> bool" where
  "lru_inv c \<longleftrightarrow>
     distinct (evictList c) \<and>
     (\<forall>e \<in> set (evictList c). e < nextElem c) \<and>
     (\<forall>e \<in> set (evictList c). \<exists>kv. elemValue c e = Some kv \<and> items c (key kv) = Some e) \<and>
     (\<forall>k e. items c k = Some e \<longrightarrow>
        e \<in> set (evictList c) \<and> (\<exists>kv. elemValue c e = Some kv \<and> key kv = k))"

subsection \<open>Auxiliary notions\<close>

text \<open>
  The states that the branches of the operations produce: \<open>evicted\<close> is the state after
  \<open>removeElement\<close> of an element holding \<open>kv\<close>, \<open>updated\<close> the state after \<open>Add\<close> of a key
  that is present, \<open>pushed\<close> the state after \<open>Add\<close> has inserted an absent key and before it
  looks at the capacity. \<open>payload c k\<close> is the entry that the key \<open>k\<close> resolves to.
\<close>

definition evicted ::
  "('k, 'v, 'w) LRUWithEvict \<Rightarrow> element \<Rightarrow> ('k, 'v) evictable \<Rightarrow> ('k, 'v, 'w) LRUWithEvict" where
  "evicted c e kv =
     c\<lparr> evictList := remove1 e (evictList c),
        items := (items c)(key kv := None),
        world := (case onEvicted c of
                    None \<Rightarrow> world c
                  | Some f \<Rightarrow> f (key kv) (value' kv) (world c)),
        metrics := (metrics c)\<lparr> evictions := Suc (evictions (metrics c)) \<rparr> \<rparr>"

definition updated ::
  "('k, 'v, 'w) LRUWithEvict \<Rightarrow> element \<Rightarrow> 'k \<Rightarrow> 'v \<Rightarrow> ('k, 'v, 'w) LRUWithEvict" where
  "updated c e k v =
     c\<lparr> evictList := MoveToFront (evictList c) e,
        elemValue := (elemValue c)(e \<mapsto> \<lparr> key = k, value' = v \<rparr>) \<rparr>"

definition pushed ::
  "('k, 'v, 'w) LRUWithEvict \<Rightarrow> 'k \<Rightarrow> 'v \<Rightarrow> ('k, 'v, 'w) LRUWithEvict" where
  "pushed c k v =
     c\<lparr> nextElem := Suc (nextElem c),
        elemValue := (elemValue c)(nextElem c \<mapsto> \<lparr> key = k, value' = v \<rparr>),
        evictList := nextElem c # evictList c,
        items := (items c)(k \<mapsto> nextElem c) \<rparr>"

definition payload :: "('k, 'v, 'w) LRUWithEvict \<Rightarrow> 'k \<Rightarrow> ('k, 'v) evictable option" where
  "payload c k = (case items c k of None \<Rightarrow> None | Some e \<Rightarrow> elemValue c e)"

subsection \<open>An example run\<close>

text \<open>
  A cache over natural numbers, of capacity 2, whose eviction callback appends the evicted
  pair to a log (the world) and whose closer fails; \<open>demo_one\<close> is its state after
  \<open>Add 1 10\<close>.
\<close>

definition demo_new :: "(nat, nat, (nat \<times> nat) list) LRUWithEvict" where
  "demo_new = NewWithEvict (\<lambda>w. (Some ''unregister failed'', w)) 2
     (Some (\<lambda>k v w. w @ [(k, v)])) []"

definition demo_one :: "(nat, nat, (nat \<times> nat) list) LRUWithEvict" where
  "demo_one =
     \<lparr> metrics = \<lparr> hits = 0, misses = 0, evictions = 0 \<rparr>,
       closer = Some (\<lambda>w. (Some ''unregister failed'', w)),
       maxEntries = 2,
       onEvicted = Some (\<lambda>k v w. w @ [(k, v)]),
       evictList = [0],
       items = [1 \<mapsto> 0],
       elemValue = [0 \<mapsto> \<lparr> key = 1, value' = 10 \<rparr>],
       nextElem = 1,
       world = [] \<rparr>"

section \<open>The BPF metrics collector (pkg/profiler/cpu/metrics.go)\<close>

subsection \<open>Descriptors and constant metrics\<close>

text \<open>
  \<open>prometheus.NewDesc(fqName, help, variableLabels, constLabels)\<close>; every descriptor of
  the collector passes \<open>nil\<close> for the constant labels. The field \<open>help\<close> is written \<open>help'\<close>.
\<close>

record Desc =
  fqName :: string
  help' :: string
  variableLabels :: "string list"

definition NewDesc :: "string \<Rightarrow> string \<Rightarrow> string list \<Rightarrow> Desc" where
  "NewDesc n h ls = \<lparr> fqName = n, help' = h, variableLabels = ls \<rparr>"

definition descBPFMemlock :: Desc where
  "descBPFMemlock =
     NewDesc ''parca_agent_bpf_map_memlock'' ''Memlock value held by BPF map'' [''bpf_map_name'']"

definition descBPFMapKeySize :: Desc where
  "descBPFMapKeySize =
     NewDesc ''parca_agent_bpf_map_key_size'' ''Key size for BPF map'' [''bpf_map_name'']"

definition descBPFMapValueSize :: Desc where
  "descBPFMapValueSize =
     NewDesc ''parca_agent_bpf_map_value_size'' ''Value size BPF map'' [''bpf_map_name'']"

definition descBPFMapMaxEntries :: Desc where
  "descBPFMapMaxEntries =
     NewDesc ''parca_agent_bpf_map_max_entries'' ''Maximum entries in BPF map'' [''bpf_map_name'']"

definition descNativeUnwinderTotalSamples :: Desc where
  "descNativeUnwinderTotalSamples =
     NewDesc ''parca_agent_native_unwinder_samples_total'' ''Total samples.'' [''unwinder'']"

definition descNativeUnwinderSuccess :: Desc where
  "descNativeUnwinderSuccess =
     NewDesc ''parca_agent_native_unwinder_success_total''
       ''Samples that unwound successfully reaching the bottom frame.'' [''unwinder'']"

definition descNativeUnwinderErrors :: Desc where
  "descNativeUnwinderErrors =
     NewDesc ''parca_agent_native_unwinder_error_total''
       ''There was an error while unwinding the stack.'' [''reason'']"

datatype ValueType = CounterValue | GaugeValue

text \<open>
  The value of a measurement is a \<open>float64\<close>. The floating-point type is a parameter
  \<open>'f\<close>; \<open>Float64Of n\<close> is the conversion \<open>float64(n)\<close> of a counter \<open>n\<close> of the statistics
  record, whose integer type \<open>'n\<close> is declared outside the sources at hand.
\<close>

datatype ('f, 'n) sample = Float64 'f | Float64Of 'n

record ('f, 'n) Metric =
  desc :: Desc
  valueType :: ValueType
  sampleValue :: "('f, 'n) sample"
  labelValues :: "string list"

text \<open>
  \<open>prometheus.MustNewConstMetric\<close> panics when \<open>NewConstMetric\<close> returns an error, which
  it does when the number of label values differs from the number of variable labels of
  the descriptor.
\<close>

definition MustNewConstMetric ::
  "Desc \<Rightarrow> ValueType \<Rightarrow> ('f, 'n) sample \<Rightarrow> string list \<Rightarrow> panic + ('f, 'n) Metric" where
  "MustNewConstMetric d t x lvs =
     (if length lvs = length (variableLabels d)
      then Inr \<lparr> desc = d, valueType = t, sampleValue = x, labelValues = lvs \<rparr>
      else Inl InconsistentCardinality)"

text \<open>\<open>ch <- m\<close>: the channel is the list of the metrics sent so far; a panic ends the call.\<close>

definition send :: "panic + 'm list \<Rightarrow> panic + 'm \<Rightarrow> panic + 'm list" where
  "send ch m =
     (case ch of
        Inl p \<Rightarrow> Inl p
      | Inr ms \<Rightarrow> (case m of Inl p \<Rightarrow> Inl p | Inr x \<Rightarrow> Inr (ms @ [x])))"

subsection \<open>The collector\<close>

record 'f bpfMetrics =
  mapName :: string
  bpfMapKeySize :: 'f
  bpfMapValueSize :: 'f
  bpfMaxEntry :: 'f
  bpfMemlock :: 'f

text \<open>
  The statistics record \<open>unwinderStats\<close> is declared outside the sources at hand; its
  fields are the ten that \<open>collectUnwinderStatistics\<close> reads. \<open>unwinderStats{}\<close> is the
  record of zeros.
\<close>

record 'n unwinderStats =
  Total :: 'n
  SuccessDwarf :: 'n
  ErrorTruncated :: 'n
  ErrorUnsupportedExpression :: 'n
  ErrorFramePointerAction :: 'n
  ErrorUnsupportedCfaRegister :: 'n
  ErrorCatchall :: 'n
  ErrorShouldNeverHappen :: 'n
  ErrorPcNotCovered :: 'n
  ErrorUnsupportedJit :: 'n

definition zeroStats :: "('n::zero) unwinderStats" where
  "zeroStats =
     \<lparr> Total = 0, SuccessDwarf = 0, ErrorTruncated = 0, ErrorUnsupportedExpression = 0,
       ErrorFramePointerAction = 0, ErrorUnsupportedCfaRegister = 0, ErrorCatchall = 0,
       ErrorShouldNeverHappen = 0, ErrorPcNotCovered = 0, ErrorUnsupportedJit = 0 \<rparr>"

text \<open>A line written by \<open>level.Error(c.logger).Log("msg", m, "error", err)\<close>.\<close>

datatype logLine = ErrorLine string error

text \<open>
  The methods \<open>getBPFMetrics\<close> and \<open>readCounters\<close> of the collector are defined outside
  the sources at hand. The collector carries what they return in this collection cycle:
  the list of per-map figures, and the pair \<open>(stats, err)\<close> with \<open>None\<close> for a \<open>nil\<close>
  error. \<open>logger\<close> is the list of the lines logged so far.
\<close>

record ('f, 'n) bpfMetricsCollector =
  logger :: "logLine list"
  getBPFMetrics :: "'f bpfMetrics list"
  readCounters :: "'n unwinderStats \<times> error option"

definition getUnwinderStats ::
  "('f, 'n::zero) bpfMetricsCollector \<Rightarrow> ('f, 'n) bpfMetricsCollector \<times> 'n unwinderStats" where
  "getUnwinderStats c =
     (case readCounters c of
        (stats, Some err) \<Rightarrow>
          (c\<lparr> logger := logger c @ [ErrorLine ''readPerCpuCounter failed'' err] \<rparr>, zeroStats)
      | (stats, None) \<Rightarrow> (c, stats))"

definition collectUnwinderStatistics ::
  "('f, 'n::zero) bpfMetricsCollector \<Rightarrow> ('f, 'n) Metric list
    \<Rightarrow> ('f, 'n) bpfMetricsCollector \<times> (panic + ('f, 'n) Metric list)" where
  "collectUnwinderStatistics c ch =
     (case getUnwinderStats c of (c', stats) \<Rightarrow>
      let ch1 = send (Inr ch) (MustNewConstMetric descNativeUnwinderTotalSamples CounterValue
                  (Float64Of (Total stats)) [''dwarf'']);
          ch2 = send ch1 (MustNewConstMetric descNativeUnwinderSuccess CounterValue
                  (Float64Of (SuccessDwarf stats)) [''dwarf'']);
          ch3 = send ch2 (MustNewConstMetric descNativeUnwinderErrors CounterValue
                  (Float64Of (ErrorTruncated stats)) [''truncated'']);
          ch4 = send ch3 (MustNewConstMetric descNativeUnwinderErrors CounterValue
                  (Float64Of (ErrorUnsupportedExpression stats)) [''unsupported_expression'']);
          ch5 = send ch4 (MustNewConstMetric descNativeUnwinderErrors CounterValue
                  (Float64Of (ErrorFramePointerAction stats)) [''frame_pointer_action'']);
          ch6 = send ch5 (MustNewConstMetric descNativeUnwinderErrors CounterValue
                  (Float64Of (ErrorUnsupportedCfaRegister stats)) [''unsupported_cfa_register'']);
          ch7 = send ch6 (MustNewConstMetric descNativeUnwinderErrors CounterValue
                  (Float64Of (ErrorCatchall stats)) [''catchall'']);
          ch8 = send ch7 (MustNewConstMetric descNativeUnwinderErrors CounterValue
                  (Float64Of (ErrorShouldNeverHappen stats)) [''should_never_happen'']);
          ch9 = send ch8 (MustNewConstMetric descNativeUnwinderErrors CounterValue
                  (Float64Of (ErrorPcNotCovered stats)) [''pc_not_covered'']);
          ch10 = send ch9 (MustNewConstMetric descNativeUnwinderErrors CounterValue
                  (Float64Of (ErrorUnsupportedJit stats)) [''unsupported_jit''])
      in (c', ch10))"

text \<open>The body of the loop of \<open>Collect\<close> over the per-map figures.\<close>

definition collectBPFMetrics ::
  "'f bpfMetrics \<Rightarrow> panic + ('f, 'n) Metric list \<Rightarrow> panic + ('f, 'n) Metric list" where
  "collectBPFMetrics b ch =
     (let ch1 = send ch (MustNewConstMetric descBPFMemlock GaugeValue
                  (Float64 (bpfMemlock b)) [mapName b]);
          ch2 = send ch1 (MustNewConstMetric descBPFMapKeySize GaugeValue
                  (Float64 (bpfMapKeySize b)) [mapName b]);
          ch3 = send ch2 (MustNewConstMetric descBPFMapValueSize GaugeValue
                  (Float64 (bpfMapValueSize b)) [mapName b])
      in send ch3 (MustNewConstMetric descBPFMapMaxEntries GaugeValue
                  (Float64 (bpfMaxEntry b)) [mapName b]))"

definition Collect ::
  "('f, 'n::zero) bpfMetricsCollector \<Rightarrow> ('f, 'n) Metric list
    \<Rightarrow> ('f, 'n) bpfMetricsCollector \<times> (panic + ('f, 'n) Metric list)" where
  "Collect c ch =
     (case fold collectBPFMetrics (getBPFMetrics c) (Inr ch) of
        Inl p \<Rightarrow> (c, Inl p)
      | Inr ms \<Rightarrow> collectUnwinderStatistics c ms)"

text \<open>
  The measurements of the native-unwinder source among the metrics sent: those of its three
  descriptors.
\<close>

definition unwinderMeasurements :: "('f, 'n) Metric list \<Rightarrow> ('f, 'n) Metric list" where
  "unwinderMeasurements ms =
     filter (\<lambda>m. desc m \<in> {descNativeUnwinderTotalSamples, descNativeUnwinderSuccess,
                           descNativeUnwinderErrors}) ms"

text \<open>The ten measurements that a statistics record gives rise to.\<close>

definition unwinderMetrics :: "'n unwinderStats \<Rightarrow> ('f, 'n) Metric list" where
  "unwinderMetrics stats =
     [\<lparr> desc = descNativeUnwinderTotalSamples, valueType = CounterValue,
        sampleValue = Float64Of (Total stats), labelValues = [''dwarf''] \<rparr>,
      \<lparr> desc = descNativeUnwinderSuccess, valueType = CounterValue,
        sampleValue = Float64Of (SuccessDwarf stats), labelValues = [''dwarf''] \<rparr>,
      \<lparr> desc = descNativeUnwinderErrors, valueType = CounterValue,
        sampleValue = Float64Of (ErrorTruncated stats), labelValues = [''truncated''] \<rparr>,
      \<lparr> desc = descNativeUnwinderErrors, valueType = CounterValue,
        sampleValue = Float64Of (ErrorUnsupportedExpression stats),
        labelValues = [''unsupported_expression''] \<rparr>,
      \<lparr> desc = descNativeUnwinderErrors, valueType = CounterValue,
        sampleValue = Float64Of (ErrorFramePointerAction stats),
        labelValues = [''frame_pointer_action''] \<rparr>,
      \<lparr> desc = descNativeUnwinderErrors, valueType = CounterValue,
        sampleValue = Float64Of (ErrorUnsupportedCfaRegister stats),
        labelValues = [''unsupported_cfa_register''] \<rparr>,
      \<lparr> desc = descNativeUnwinderErrors, valueType = CounterValue,
        sampleValue = Float64Of (ErrorCatchall stats), labelValues = [''catchall''] \<rparr>,
      \<lparr> desc = descNativeUnwinderErrors, valueType = CounterValue,
        sampleValue = Float64Of (ErrorShouldNeverHappen stats),
        labelValues = [''should_never_happen''] \<rparr>,
      \<lparr> desc = descNativeUnwinderErrors, valueType = CounterValue,
        sampleValue = Float64Of (ErrorPcNotCovered stats), labelValues = [''pc_not_covered''] \<rparr>,
      \<lparr> desc = descNativeUnwinderErrors, valueType = CounterValue,
        sampleValue = Float64Of (ErrorUnsupportedJit stats),
        labelValues = [''unsupported_jit''] \<rparr>]"

text \<open>The four measurements of one BPF map.\<close>

definition bpfMapMetrics :: "'f bpfMetrics \<Rightarrow> ('f, 'n) Metric list" where
  "bpfMapMetrics b =
     [\<lparr> desc = descBPFMemlock, valueType = GaugeValue,
        sampleValue = Float64 (bpfMemlock b), labelValues = [mapName b] \<rparr>,
      \<lparr> desc = descBPFMapKeySize, valueType = GaugeValue,
        sampleValue = Float64 (bpfMapKeySize b), labelValues = [mapName b] \<rparr>,
      \<lparr> desc = descBPFMapValueSize, valueType = GaugeValue,
        sampleValue = Float64 (bpfMapValueSize b), labelValues = [mapName b] \<rparr>,
      \<lparr> desc = descBPFMapMaxEntries, valueType = GaugeValue,
        sampleValue = Float64 (bpfMaxEntry b), labelValues = [mapName b] \<rparr>]"


section \<open>Properties of the cache\<close>

subsection \<open>The example run\<close>

lemma demo_one_run: "Add demo_new 1 10 = Inr demo_one"
  by (simp add: demo_new_def demo_one_def NewWithEvict_def Add_def Let_def Len_def)

lemma demo_one_reachable_from: "reachable_from demo_new demo_one"
  by (rule r_add[OF r_start demo_one_run])

lemma demo_one_reachable: "reachable demo_one"
  unfolding reachable_def
  apply (rule exI[of _ "\<lambda>w. (Some ''unregister failed'', w)"])
  apply (rule exI[of _ 2])
  apply (rule exI[of _ "Some (\<lambda>k v w. w @ [(k, v)])"])
  apply (rule exI[of _ "[]"])
  using demo_one_reachable_from apply (simp add: demo_new_def)
  done

lemma demo_one_fields:
  "items demo_one = [1 \<mapsto> 0]" "evictList demo_one = [0]"
  "elemValue demo_one = [0 \<mapsto> \<lparr> key = 1, value' = 10 \<rparr>]"
  "world demo_one = []" "onEvicted demo_one = Some (\<lambda>k v w. w @ [(k, v)])"
  "closer demo_one = Some (\<lambda>w. (Some ''unregister failed'', w))"
  "metrics demo_one = \<lparr> hits = 0, misses = 0, evictions = 0 \<rparr>"
  "maxEntries demo_one = 2"
  by (simp_all add: demo_one_def)

lemma demo_one_Peek:
  "Peek demo_one 1 = Inr ((Some 10, True), demo_one)"
  "Peek demo_one 2 = Inr ((None, False), demo_one)"
  by (simp_all add: Peek_def demo_one_fields)



subsection \<open>The representation invariant is preserved\<close>

lemma lru_inv_New: "lru_inv (NewWithEvict u n cb w)"
  by (simp add: lru_inv_def NewWithEvict_def)

lemma inv_elem:
  "lru_inv c \<Longrightarrow> e \<in> set (evictList c) \<Longrightarrow> \<exists>kv. elemValue c e = Some kv \<and> items c (key kv) = Some e"
  unfolding lru_inv_def by blast

lemma inv_item:
  "lru_inv c \<Longrightarrow> items c k = Some e \<Longrightarrow> e \<in> set (evictList c) \<and> (\<exists>kv. elemValue c e = Some kv \<and> key kv = k)"
  unfolding lru_inv_def by blast

lemma inv_distinct: "lru_inv c \<Longrightarrow> distinct (evictList c)"
  unfolding lru_inv_def by blast

lemma inv_alloc: "lru_inv c \<Longrightarrow> e \<in> set (evictList c) \<Longrightarrow> e < nextElem c"
  unfolding lru_inv_def by blast

lemma lru_invI:
  assumes "distinct (evictList c)"
    and "\<And>e. e \<in> set (evictList c) \<Longrightarrow> e < nextElem c"
    and "\<And>e. e \<in> set (evictList c) \<Longrightarrow> \<exists>kv. elemValue c e = Some kv \<and> items c (key kv) = Some e"
    and "\<And>k e. items c k = Some e \<Longrightarrow> e \<in> set (evictList c) \<and> (\<exists>kv. elemValue c e = Some kv \<and> key kv = k)"
  shows "lru_inv c"
  unfolding lru_inv_def using assms by blast

lemma lru_inv_frame:
  assumes "lru_inv c" "distinct (evictList c')" "set (evictList c') = set (evictList c)"
    "items c' = items c" "elemValue c' = elemValue c" "nextElem c' = nextElem c"
  shows "lru_inv c'"
  using assms unfolding lru_inv_def by simp

lemma removeElement_Inr:
  assumes "elemValue c e = Some kv"
  shows "removeElement c e = Inr (evicted c e kv)"
  using assms by (simp add: removeElement_def evicted_def Let_def split: option.splits)

lemma evicted_inv:
  assumes inv: "lru_inv c" and mem: "e \<in> set (evictList c)" and kv1: "elemValue c e = Some kv"
  shows "lru_inv (evicted c e kv)"
proof -
  from inv_elem[OF inv mem] kv1 have kv: "elemValue c e = Some kv" "items c (key kv) = Some e"
    by auto
  define c' where "c' = evicted c e kv"
  have f: "evictList c' = remove1 e (evictList c)" "items c' = (items c)(key kv := None)"
     "elemValue c' = elemValue c" "nextElem c' = nextElem c"
    by (simp_all add: c'_def evicted_def)
  have d: "distinct (evictList c)" by (rule inv_distinct[OF inv])
  have "lru_inv c'"
  proof (rule lru_invI)
    show "distinct (evictList c')" using d by (simp add: f)
  next
    fix x assume "x \<in> set (evictList c')"
    then show "x < nextElem c'" using inv_alloc[OF inv, of x] d by (simp add: f)
  next
    fix x assume "x \<in> set (evictList c')"
    then have x: "x \<in> set (evictList c)" "x \<noteq> e" using d by (simp_all add: f)
    from inv_elem[OF inv x(1)] obtain kx where kx: "elemValue c x = Some kx" "items c (key kx) = Some x"
      by blast
    have "key kx \<noteq> key kv" using kx(2) kv(2) x(2) by auto
    then show "\<exists>kv. elemValue c' x = Some kv \<and> items c' (key kv) = Some x"
      using kx by (simp add: f)
  next
    fix k x assume "items c' k = Some x"
    then have i: "k \<noteq> key kv" "items c k = Some x" by (auto simp: f split: if_splits)
    from inv_item[OF inv i(2)] obtain kx where kx: "x \<in> set (evictList c)" "elemValue c x = Some kx" "key kx = k"
      by blast
    have "x \<noteq> e" using kx kv i(1) by auto
    then show "x \<in> set (evictList c') \<and> (\<exists>kv. elemValue c' x = Some kv \<and> key kv = k)"
      using kx d by (simp add: f)
  qed
  then show ?thesis by (simp add: c'_def)
qed

lemma insert_remove1: "e \<in> set l \<Longrightarrow> insert e (set (remove1 e l)) = set l"
  by (induction l) auto

lemma set_MoveToFront: "set (MoveToFront l e) = set l"
  by (simp add: MoveToFront_def insert_remove1)

lemma distinct_MoveToFront: "distinct l \<Longrightarrow> distinct (MoveToFront l e)"
  by (auto simp: MoveToFront_def)


lemma Add_present:
  assumes "items c k = Some e"
  shows "Add c k v = Inr (updated c e k v)"
  using assms by (simp add: Add_def updated_def)

lemma updated_inv:
  assumes inv: "lru_inv c" and i: "items c k = Some e"
  shows "lru_inv (updated c e k v)"
proof -
  define c' where "c' = updated c e k v"
  have f: "evictList c' = MoveToFront (evictList c) e" "items c' = items c"
     "elemValue c' = (elemValue c)(e \<mapsto> \<lparr> key = k, value' = v \<rparr>)" "nextElem c' = nextElem c"
    by (simp_all add: c'_def updated_def)
  have "lru_inv c'"
  proof (rule lru_invI)
    show "distinct (evictList c')" using inv_distinct[OF inv] by (simp add: f distinct_MoveToFront)
  next
    fix x assume "x \<in> set (evictList c')"
    then show "x < nextElem c'" using inv_alloc[OF inv, of x] by (simp add: f set_MoveToFront)
  next
    fix x assume "x \<in> set (evictList c')"
    then have x: "x \<in> set (evictList c)" by (simp add: f set_MoveToFront)
    show "\<exists>kv. elemValue c' x = Some kv \<and> items c' (key kv) = Some x"
      using inv_elem[OF inv x] i by (auto simp: f)
  next
    fix k' x assume "items c' k' = Some x"
    then have k': "items c k' = Some x" by (simp add: f)
    from inv_item[OF inv k'] inv_item[OF inv i] k' i
    show "x \<in> set (evictList c') \<and> (\<exists>kv. elemValue c' x = Some kv \<and> key kv = k')"
      by (auto simp: f set_MoveToFront)
  qed
  then show ?thesis by (simp add: c'_def)
qed

lemma Add_absent:
  assumes "items c k = None"
  shows "Add c k v =
     (if maxEntries c \<noteq> 0 \<and> int (Suc (length (evictList c))) > maxEntries c
      then removeOldest (pushed c k v) else Inr (pushed c k v))"
  using assms by (simp add: Add_def pushed_def Let_def Len_def)

lemma pushed_inv:
  assumes inv: "lru_inv c" and i: "items c k = None"
  shows "lru_inv (pushed c k v)"
proof -
  define c' where "c' = pushed c k v"
  have f: "evictList c' = nextElem c # evictList c" "items c' = (items c)(k \<mapsto> nextElem c)"
     "elemValue c' = (elemValue c)(nextElem c \<mapsto> \<lparr> key = k, value' = v \<rparr>)" "nextElem c' = Suc (nextElem c)"
    by (simp_all add: c'_def pushed_def)
  have fresh: "nextElem c \<notin> set (evictList c)" using inv_alloc[OF inv, of "nextElem c"] by auto
  have "lru_inv c'"
  proof (rule lru_invI)
    show "distinct (evictList c')" using inv_distinct[OF inv] fresh by (simp add: f)
  next
    fix x assume "x \<in> set (evictList c')"
    then show "x < nextElem c'" using inv_alloc[OF inv, of x] by (auto simp: f)
  next
    fix x assume x: "x \<in> set (evictList c')"
    show "\<exists>kv. elemValue c' x = Some kv \<and> items c' (key kv) = Some x"
    proof (cases "x = nextElem c")
      case True then show ?thesis by (simp add: f)
    next
      case False
      with x have x': "x \<in> set (evictList c)" by (simp add: f)
      from inv_elem[OF inv x'] obtain kx where kx: "elemValue c x = Some kx" "items c (key kx) = Some x" by blast
      then have "key kx \<noteq> k" using i by auto
      then show ?thesis using kx False by (simp add: f)
    qed
  next
    fix k' x assume a: "items c' k' = Some x"
    show "x \<in> set (evictList c') \<and> (\<exists>kv. elemValue c' x = Some kv \<and> key kv = k')"
    proof (cases "k' = k")
      case True then show ?thesis using a by (auto simp: f)
    next
      case False
      with a have k': "items c k' = Some x" by (simp add: f)
      from inv_item[OF inv k'] fresh have "x \<noteq> nextElem c" by auto
      then show ?thesis using inv_item[OF inv k'] by (simp add: f)
    qed
  qed
  then show ?thesis by (simp add: c'_def)
qed

lemma Back_mem: "Back l = Some e \<Longrightarrow> e \<in> set l"
  by (auto simp: Back_def split: if_splits)

lemma removeOldest_inv:
  assumes inv: "lru_inv c"
  shows "\<exists>c'. removeOldest c = Inr c' \<and> lru_inv c'"
proof (cases "Back (evictList c)")
  case None
  then show ?thesis using inv by (simp add: removeOldest_def)
next
  case (Some e)
  from inv_elem[OF inv Back_mem[OF Some]] obtain kv where kv: "elemValue c e = Some kv" by blast
  show ?thesis using Some removeElement_Inr[OF kv] evicted_inv[OF inv Back_mem[OF Some] kv]
    by (simp add: removeOldest_def)
qed

lemma Add_inv:
  assumes inv: "lru_inv c"
  shows "\<exists>c'. Add c k v = Inr c' \<and> lru_inv c'"
proof (cases "items c k")
  case None
  show ?thesis using removeOldest_inv[OF pushed_inv[OF inv None, of v]] pushed_inv[OF inv None, of v]
    by (simp add: Add_absent[OF None])
next
  case (Some e)
  show ?thesis using updated_inv[OF inv Some] by (simp add: Add_present[OF Some])
qed

lemma Get_inv:
  assumes inv: "lru_inv c"
  shows "\<exists>r c'. Get c k = Inr (r, c') \<and> lru_inv c'"
proof (cases "items c k")
  case None
  have "lru_inv (c\<lparr> metrics := (metrics c)\<lparr> misses := Suc (misses (metrics c)) \<rparr> \<rparr>)"
    by (rule lru_inv_frame[OF inv]) (simp_all add: inv_distinct[OF inv])
  then show ?thesis using None by (auto simp: Get_def)
next
  case (Some e)
  from inv_item[OF inv Some] obtain kv where kv: "elemValue c e = Some kv" by blast
  have "lru_inv (c\<lparr> evictList := MoveToFront (evictList c) e, metrics := (metrics c)\<lparr> hits := Suc (hits (metrics c)) \<rparr> \<rparr>)"
    by (rule lru_inv_frame[OF inv]) (simp_all add: distinct_MoveToFront inv_distinct[OF inv] set_MoveToFront)
  then show ?thesis using Some kv by (auto simp: Get_def Let_def)
qed

lemma Peek_total:
  assumes inv: "lru_inv c"
  shows "\<exists>r. Peek c k = Inr (r, c)"
proof (cases "items c k")
  case None then show ?thesis by (auto simp: Peek_def)
next
  case (Some e)
  from inv_item[OF inv Some] obtain kv where kv: "elemValue c e = Some kv" by blast
  then show ?thesis using Some by (auto simp: Peek_def)
qed

lemma Peek_state: "Peek c k = Inr (r, c') \<Longrightarrow> c' = c"
  by (auto simp: Peek_def split: option.splits)

lemma Remove_inv:
  assumes inv: "lru_inv c"
  shows "\<exists>c'. Remove c k = Inr c' \<and> lru_inv c'"
proof (cases "items c k")
  case None then show ?thesis using inv by (simp add: Remove_def)
next
  case (Some e)
  from inv_item[OF inv Some] obtain kv where kv: "e \<in> set (evictList c)" "elemValue c e = Some kv" by blast
  show ?thesis using Some removeElement_Inr[OF kv(2)] evicted_inv[OF inv kv]
    by (simp add: Remove_def)
qed

lemma Purge_body_Inr:
  "Purge_body c k e = Inr c' \<Longrightarrow>
     evictList c' = evictList c \<and> elemValue c' = elemValue c \<and> nextElem c' = nextElem c \<and>
     metrics c' = metrics c \<and> maxEntries c' = maxEntries c \<and> onEvicted c' = onEvicted c \<and>
     closer c' = closer c \<and> items c' = (items c)(k := None)"
  by (auto simp: Purge_body_def split: option.splits)

lemma Purge_loop_frame:
  "Purge_loop c ks = Inr c' \<Longrightarrow>
     evictList c' = evictList c \<and> elemValue c' = elemValue c \<and> nextElem c' = nextElem c \<and>
     metrics c' = metrics c \<and> maxEntries c' = maxEntries c \<and> onEvicted c' = onEvicted c \<and>
     closer c' = closer c \<and> items c' = (\<lambda>k. if k \<in> set ks then None else items c k)"
proof (induction ks arbitrary: c)
  case Nil
  then show ?case by auto
next
  case (Cons k ks)
  show ?case
  proof (cases "items c k")
    case None
    with Cons.prems have "Purge_loop c ks = Inr c'" by simp
    from Cons.IH[OF this] None show ?thesis by auto
  next
    case (Some e)
    with Cons.prems obtain c1 where c1: "Purge_body c k e = Inr c1" "Purge_loop c1 ks = Inr c'"
      by (auto split: sum.splits)
    from Cons.IH[OF c1(2)] Purge_body_Inr[OF c1(1)] show ?thesis by auto
  qed
qed


lemma map_filter_cong': "(\<And>x. x \<in> set xs \<Longrightarrow> f x = g x) \<Longrightarrow> List.map_filter f xs = List.map_filter g xs"
  by (induction xs) (auto split: option.splits)



lemma payload_Purge_body:
  "Purge_body c k e = Inr c' \<Longrightarrow> k' \<noteq> k \<Longrightarrow> payload c' k' = payload c k'"
  using Purge_body_Inr[of c k e c'] by (auto simp: payload_def split: option.splits)

lemma Purge_loop_calls:
  assumes "distinct ks"
    "\<forall>k\<in>set ks. \<forall>e. items c k = Some e \<longrightarrow> (\<exists>kv. elemValue c e = Some kv \<and> key kv = k)"
  shows "\<exists>c'. Purge_loop c ks = Inr c' \<and>
     world c' = (case onEvicted c of None \<Rightarrow> world c
                 | Some f \<Rightarrow> fold (\<lambda>kv. f (key kv) (value' kv)) (List.map_filter (payload c) ks) (world c))"
  using assms
proof (induction ks arbitrary: c)
  case Nil
  then show ?case by (simp split: option.splits)
next
  case (Cons k ks)
  show ?case
  proof (cases "items c k")
    case None
    have "payload c k = None" using None by (simp add: payload_def)
    moreover from Cons.IH[of c] Cons.prems obtain c' where
      "Purge_loop c ks = Inr c'"
      "world c' = (case onEvicted c of None \<Rightarrow> world c
                 | Some f \<Rightarrow> fold (\<lambda>kv. f (key kv) (value' kv)) (List.map_filter (payload c) ks) (world c))"
      by auto
    ultimately show ?thesis using None by (auto split: option.splits)
  next
    case (Some e)
    with Cons.prems obtain kv where kv: "elemValue c e = Some kv" "key kv = k" by auto
    have pk: "payload c k = Some kv" using Some kv by (simp add: payload_def)
    define c1 where "c1 = (case onEvicted c of
        Some f \<Rightarrow> c\<lparr> world := f k (value' kv) (world c), items := (items c)(k := None) \<rparr>
      | None \<Rightarrow> c\<lparr> items := (items c)(k := None) \<rparr>)"
    have b: "Purge_body c k e = Inr c1" using kv by (simp add: Purge_body_def c1_def split: option.splits)
    have f1: "items c1 = (items c)(k := None)" "elemValue c1 = elemValue c" "onEvicted c1 = onEvicted c"
      using Purge_body_Inr[OF b] by simp_all
    have w1: "world c1 = (case onEvicted c of None \<Rightarrow> world c | Some f \<Rightarrow> f k (value' kv) (world c))"
      by (simp add: c1_def split: option.splits)
    have pre: "\<forall>k'\<in>set ks. \<forall>e. items c1 k' = Some e \<longrightarrow> (\<exists>kv. elemValue c1 e = Some kv \<and> key kv = k')"
      using Cons.prems(2) by (auto simp: f1 split: if_splits)
    from Cons.IH[OF _ pre] Cons.prems(1) obtain c' where c':
      "Purge_loop c1 ks = Inr c'"
      "world c' = (case onEvicted c1 of None \<Rightarrow> world c1
                 | Some f \<Rightarrow> fold (\<lambda>kv. f (key kv) (value' kv)) (List.map_filter (payload c1) ks) (world c1))"
      by auto
    have "k \<notin> set ks" using Cons.prems(1) by simp
    then have same: "List.map_filter (payload c1) ks = List.map_filter (payload c) ks"
      by (intro map_filter_cong' payload_Purge_body[OF b]) auto
    show ?thesis using Some b c' pk kv(2) 
      by (simp add: same f1 w1 split: option.splits)
  qed
qed





lemma Purge_result:
  assumes inv: "lru_inv c" and ro: "range_order c ks"
  shows "\<exists>c'. Purge c ks = Inr c' \<and> items c' = Map.empty \<and> evictList c' = [] \<and>
     elemValue c' = elemValue c \<and> nextElem c' = nextElem c \<and>
     metrics c' = metrics c \<and> maxEntries c' = maxEntries c \<and> onEvicted c' = onEvicted c \<and>
     closer c' = closer c \<and>
     world c' = (case onEvicted c of None \<Rightarrow> world c
                 | Some f \<Rightarrow> fold (\<lambda>kv. f (key kv) (value' kv)) (List.map_filter (payload c) ks) (world c))"
proof -
  have "\<forall>k\<in>set ks. \<forall>e. items c k = Some e \<longrightarrow> (\<exists>kv. elemValue c e = Some kv \<and> key kv = k)"
    using inv_item[OF inv] by blast
  from Purge_loop_calls[OF _ this] ro obtain c1 where c1: "Purge_loop c ks = Inr c1"
    "world c1 = (case onEvicted c of None \<Rightarrow> world c
                 | Some f \<Rightarrow> fold (\<lambda>kv. f (key kv) (value' kv)) (List.map_filter (payload c) ks) (world c))"
    by (auto simp: range_order_def)
  have "items c1 = Map.empty"
  proof
    fix k show "items c1 k = None" using Purge_loop_frame[OF c1(1)] ro
      by (auto simp: range_order_def)
  qed
  then show ?thesis using c1 Purge_loop_frame[OF c1(1)] by (simp add: Purge_def)
qed

lemma lru_inv_empty: "items c = Map.empty \<Longrightarrow> evictList c = [] \<Longrightarrow> lru_inv c"
  by (simp add: lru_inv_def)

subsection \<open>Reachable states satisfy the invariant\<close>

lemma Close_result:
  assumes inv: "lru_inv c" and ro: "range_order c ks"
  shows "\<exists>p. Purge c ks = Inr p \<and> items p = Map.empty \<and> evictList p = [] \<and>
     Close c ks = Inr (case closer c of None \<Rightarrow> (None, p)
                       | Some cl \<Rightarrow> (fst (cl (world p)), p\<lparr> world := snd (cl (world p)) \<rparr>))"
proof -
  from Purge_result[OF inv ro] obtain p where p: "Purge c ks = Inr p" "items p = Map.empty"
    "evictList p = []" "closer p = closer c" by blast
  then show ?thesis by (auto simp: Close_def split: option.splits prod.splits)
qed

lemma reachable_from_inv:
  assumes "reachable_from c0 c" "lru_inv c0"
  shows "lru_inv c"
  using assms
proof (induction rule: reachable_from.induct)
  case r_start
  then show ?case by simp
next
  case (r_add c k v c')
  from Add_inv[OF r_add.IH[OF r_add.prems], of k v] r_add.hyps(2) show ?case by auto
next
  case (r_get c k r c')
  from Get_inv[OF r_get.IH[OF r_get.prems], of k] r_get.hyps(2) show ?case by auto
next
  case (r_peek c k r c')
  from Peek_state[OF r_peek.hyps(2)] r_peek.IH[OF r_peek.prems] show ?case by simp
next
  case (r_remove c k c')
  from Remove_inv[OF r_remove.IH[OF r_remove.prems], of k] r_remove.hyps(2) show ?case by auto
next
  case (r_purge c ks c')
  from Purge_result[OF r_purge.IH[OF r_purge.prems] r_purge.hyps(2)] r_purge.hyps(3)
  have "items c' = Map.empty \<and> evictList c' = []" by auto
  then show ?case by (simp add: lru_inv_empty)
next
  case (r_close c ks err c')
  from Close_result[OF r_close.IH[OF r_close.prems] r_close.hyps(2)]
  obtain p where p: "items p = Map.empty" "evictList p = []"
    "Close c ks = Inr (case closer c of None \<Rightarrow> (None, p)
                       | Some cl \<Rightarrow> (fst (cl (world p)), p\<lparr> world := snd (cl (world p)) \<rparr>))"
    by blast
  from p(3) r_close.hyps(3) have "c' = p \<or> (\<exists>w'. c' = p\<lparr> world := w' \<rparr>)"
    by (auto split: option.splits)
  then have "items c' = Map.empty \<and> evictList c' = []" using p(1,2) by auto
  then show ?case by (simp add: lru_inv_empty)
qed

lemma reachable_inv:
  assumes "reachable c"
  shows "lru_inv c"
proof -
  from assms obtain u n cb w where "reachable_from (NewWithEvict u n cb w) c"
    unfolding reachable_def by blast
  from reachable_from_inv[OF this lru_inv_New] show ?thesis .
qed




subsection \<open>The key index and the recency list\<close>



subsection \<open>The capacity bound\<close>







subsection \<open>Peek\<close>

lemma peeks_total: "lru_inv c \<Longrightarrow> peeks c ks = Inr c"
proof (induction ks)
  case Nil
  then show ?case by simp
next
  case (Cons k ks)
  from Peek_total[OF Cons.prems, of k] obtain r where "Peek c k = Inr (r, c)" by blast
  then show ?case using Cons by simp
qed

text \<open>
  C6. In every reachable state \<open>Peek\<close> returns the \<open>(value, ok)\<close> that \<open>Get\<close> returns and
  leaves the whole state as it is (recency list, entries, counters); so does any sequence
  of \<open>Peek\<close> calls, after which the element at the back of the list, the next to be
  evicted, is the one it was.
\<close>

theorem Peek_like_Get_without_effect:
  assumes "reachable c"
  shows "\<exists>r c''. Peek c k = Inr (r, c) \<and> Get c k = Inr (r, c'') \<and> peeks c ks = Inr c"
proof -
  have inv: "lru_inv c" by (rule reachable_inv[OF assms])
  from Peek_total[OF inv, of k] obtain r where r: "Peek c k = Inr (r, c)" by blast
  then have "\<exists>c''. Get c k = Inr (r, c'')"
    by (auto simp: Peek_def Get_def Let_def split: option.splits)
  with r peeks_total[OF inv] show ?thesis by blast
qed

text \<open>The theorem at work on the example run.\<close>

theorem Peek_like_Get_without_effect_witness:
  "reachable demo_one
   \<and> (\<exists>c''. Peek demo_one 1 = Inr ((Some 10, True), demo_one)
         \<and> Get demo_one 1 = Inr ((Some 10, True), c'')
         \<and> peeks demo_one [1, 2, 1] = Inr demo_one)"
proof -
  from Peek_like_Get_without_effect[OF demo_one_reachable, of 1 "[1, 2, 1]"]
  obtain r c'' where t: "Peek demo_one 1 = Inr (r, demo_one)" "Get demo_one 1 = Inr (r, c'')"
    "peeks demo_one [1, 2, 1] = Inr demo_one" by blast
  from t(1) demo_one_Peek(1) have "r = (Some 10, True)" by simp
  with t demo_one_reachable show ?thesis by auto
qed

subsection \<open>Overwriting and removing\<close>

lemma map_filter_remove1:
  assumes "distinct xs" "e \<in> set xs" "f e = Some z"
    "\<And>x y. x \<in> set xs \<Longrightarrow> y \<in> set xs \<Longrightarrow> f x = Some z \<Longrightarrow> f y = Some z \<Longrightarrow> x = y"
  shows "List.map_filter f (remove1 e xs) = remove1 z (List.map_filter f xs)"
  using assms
proof (induction xs)
  case Nil
  then show ?case by simp
next
  case (Cons a xs)
  show ?case
  proof (cases "a = e")
    case True
    then show ?thesis using Cons.prems(3) by simp
  next
    case False
    with Cons.prems have e: "e \<in> set xs" by simp
    have IH: "List.map_filter f (remove1 e xs) = remove1 z (List.map_filter f xs)"
      using Cons.prems e by (intro Cons.IH) auto
    have "f a \<noteq> Some z" using Cons.prems(4)[of a e] Cons.prems(3) e False by auto
    then show ?thesis using False IH by (auto split: option.splits)
  qed
qed

lemma entries_remove1:
  assumes inv: "lru_inv c" and mem: "e \<in> set (evictList c)" and kv: "elemValue c e = Some kv"
  shows "List.map_filter (elemValue c) (remove1 e (evictList c)) = remove1 kv (entries c)"
  unfolding entries_def
proof (rule map_filter_remove1[where f = "elemValue c" and xs = "evictList c" and e = e and z = kv,
      OF inv_distinct[OF inv] mem kv])
  fix x y assume a: "x \<in> set (evictList c)" "y \<in> set (evictList c)"
    "elemValue c x = Some kv" "elemValue c y = Some kv"
  from inv_elem[OF inv a(1)] inv_elem[OF inv a(2)] a(3,4) show "x = y" by auto
qed

lemma Peek_found:
  assumes inv: "lru_inv c" and p: "Peek c k = Inr ((Some v, True), c')"
  shows "\<exists>e. items c k = Some e \<and> e \<in> set (evictList c) \<and>
    elemValue c e = Some \<lparr> key = k, value' = v \<rparr>"
proof -
  from p obtain e kv where e: "items c k = Some e" "elemValue c e = Some kv" "value' kv = v"
    by (auto simp: Peek_def split: option.splits)
  from inv_item[OF inv e(1)] e(2) have "e \<in> set (evictList c)" "key kv = k" by auto
  moreover from this e(3) have "kv = \<lparr> key = k, value' = v \<rparr>" by simp
  ultimately show ?thesis using e by simp
qed

lemma Peek_absent: "Peek c k = Inr ((None, False), c') \<Longrightarrow> items c k = None"
  by (auto simp: Peek_def split: option.splits)

text \<open>
  C3. In a reachable state where \<open>Peek\<close> finds the key \<open>k\<close> with value \<open>v1\<close>, \<open>Add k v2\<close>
  returns; it keeps the map as it is and writes \<open>(k, v2)\<close> into the element \<open>e\<close> that \<open>k\<close>
  resolves to (the value is updated in place), moves \<open>e\<close> to the front of the list (the
  entry becomes the most recently used, the others keep their order), leaves the world
  untouched (the eviction callback is not applied) and leaves all three counters as they
  are; a \<open>Get\<close> of \<open>k\<close> afterwards returns \<open>v2\<close> and \<open>true\<close>.
\<close>

theorem Add_overwrites_in_place:
  assumes "reachable c" "Peek c k = Inr ((Some v1, True), c)"
  shows "\<exists>e c' c''. items c k = Some e \<and> Add c k v2 = Inr c'
     \<and> items c' = items c
     \<and> elemValue c' = (elemValue c)(e \<mapsto> \<lparr> key = k, value' = v2 \<rparr>)
     \<and> evictList c' = e # remove1 e (evictList c)
     \<and> entries c' = \<lparr> key = k, value' = v2 \<rparr> # remove1 \<lparr> key = k, value' = v1 \<rparr> (entries c)
     \<and> world c' = world c \<and> metrics c' = metrics c
     \<and> Get c' k = Inr ((Some v2, True), c'')"
proof -
  have inv: "lru_inv c" by (rule reachable_inv[OF assms(1)])
  from Peek_found[OF inv assms(2)] obtain e where e: "items c k = Some e"
    "e \<in> set (evictList c)" "elemValue c e = Some \<lparr> key = k, value' = v1 \<rparr>" by blast
  define c' where "c' = updated c e k v2"
  have a: "Add c k v2 = Inr c'" by (simp add: Add_present[OF e(1)] c'_def)
  have f: "items c' = items c" "elemValue c' = (elemValue c)(e \<mapsto> \<lparr> key = k, value' = v2 \<rparr>)"
    "evictList c' = e # remove1 e (evictList c)" "world c' = world c" "metrics c' = metrics c"
    using e(2) by (simp_all add: c'_def updated_def MoveToFront_def)
  have "e \<notin> set (remove1 e (evictList c))" using inv_distinct[OF inv] by simp
  then have "List.map_filter (elemValue c') (remove1 e (evictList c))
      = List.map_filter (elemValue c) (remove1 e (evictList c))"
    by (intro map_filter_cong') (auto simp: f)
  then have ent: "entries c' = \<lparr> key = k, value' = v2 \<rparr> # remove1 \<lparr> key = k, value' = v1 \<rparr> (entries c)"
    using entries_remove1[OF inv e(2,3)] by (simp add: entries_def[of c'] f)
  obtain c'' where g: "Get c' k = Inr ((Some v2, True), c'')"
    using e(1) by (simp add: Get_def Let_def f)
  show ?thesis
    apply (rule exI[of _ e])
    apply (rule exI[of _ c'])
    apply (rule exI[of _ c''])
    using e(1) a f ent g apply (intro conjI)
            apply assumption+
    done
qed

text \<open>The theorem at work on the example run.\<close>

theorem Add_overwrites_in_place_witness:
  "reachable demo_one \<and> Peek demo_one 1 = Inr ((Some 10, True), demo_one)
   \<and> (\<exists>c' c''. Add demo_one 1 11 = Inr c'
         \<and> items c' = items demo_one
         \<and> elemValue c' = [0 \<mapsto> \<lparr> key = 1, value' = 11 \<rparr>]
         \<and> evictList c' = [0]
         \<and> entries c' = [\<lparr> key = 1, value' = 11 \<rparr>]
         \<and> world c' = [] \<and> metrics c' = metrics demo_one
         \<and> Get c' 1 = Inr ((Some 11, True), c''))"
proof -
  from Add_overwrites_in_place[OF demo_one_reachable demo_one_Peek(1), of 11]
  obtain e c' c'' where t: "items demo_one 1 = Some e" "Add demo_one 1 11 = Inr c'"
     "items c' = items demo_one"
     "elemValue c' = (elemValue demo_one)(e \<mapsto> \<lparr> key = 1, value' = 11 \<rparr>)"
     "evictList c' = e # remove1 e (evictList demo_one)"
     "entries c' = \<lparr> key = 1, value' = 11 \<rparr> # remove1 \<lparr> key = 1, value' = 10 \<rparr> (entries demo_one)"
     "world c' = world demo_one" "metrics c' = metrics demo_one"
     "Get c' 1 = Inr ((Some 11, True), c'')"
    by blast
  from t(1) have e: "e = 0" by (simp add: demo_one_fields)
  have ent: "entries demo_one = [\<lparr> key = 1, value' = 10 \<rparr>]"
    by (simp add: entries_def demo_one_fields)
  from t(4,5,6,7) have "elemValue c' = [0 \<mapsto> \<lparr> key = 1, value' = 11 \<rparr>]" "evictList c' = [0]"
    "entries c' = [\<lparr> key = 1, value' = 11 \<rparr>]" "world c' = []"
    by (simp_all add: e ent demo_one_fields)
  with t(2,3,8,9) demo_one_reachable demo_one_Peek(1) show ?thesis by blast
qed

text \<open>
  C7. In a reachable state, \<open>Remove\<close> of a key that \<open>Peek\<close> does not find returns with the
  state unchanged, an empty cache included; \<open>Remove\<close> of a key that \<open>Peek\<close> finds with value
  \<open>v\<close> returns, deletes the key from the map and its entry from the list (one entry
  fewer, the others in their order), applies the eviction callback, if there is one, to
  \<open>(k, v)\<close> once, and adds one to the eviction counter and nothing to the others.
\<close>

theorem Remove_present_or_absent:
  assumes "reachable c"
  shows "(Peek c k = Inr ((None, False), c) \<longrightarrow> Remove c k = Inr c)
    \<and> (\<forall>v. Peek c k = Inr ((Some v, True), c) \<longrightarrow>
        (\<exists>c'. Remove c k = Inr c' \<and> Peek c' k = Inr ((None, False), c')
          \<and> items c' = (items c)(k := None)
          \<and> entries c' = remove1 \<lparr> key = k, value' = v \<rparr> (entries c)
          \<and> Suc (length (evictList c')) = length (evictList c)
          \<and> world c' = (case onEvicted c of None \<Rightarrow> world c | Some f \<Rightarrow> f k v (world c))
          \<and> metrics c' = (metrics c)\<lparr> evictions := Suc (evictions (metrics c)) \<rparr>))"
proof (intro conjI allI impI)
  assume "Peek c k = Inr ((None, False), c)"
  from Peek_absent[OF this] show "Remove c k = Inr c" by (simp add: Remove_def)
next
  fix v assume p: "Peek c k = Inr ((Some v, True), c)"
  have inv: "lru_inv c" by (rule reachable_inv[OF assms(1)])
  from Peek_found[OF inv p] obtain e where e: "items c k = Some e"
    "e \<in> set (evictList c)" "elemValue c e = Some \<lparr> key = k, value' = v \<rparr>" by blast
  define c' where "c' = evicted c e \<lparr> key = k, value' = v \<rparr>"
  have r: "Remove c k = Inr c'"
    using e(1) removeElement_Inr[OF e(3)] by (simp add: Remove_def c'_def)
  have f: "items c' = (items c)(k := None)" "evictList c' = remove1 e (evictList c)"
    "elemValue c' = elemValue c"
    "world c' = (case onEvicted c of None \<Rightarrow> world c | Some f \<Rightarrow> f k v (world c))"
    "metrics c' = (metrics c)\<lparr> evictions := Suc (evictions (metrics c)) \<rparr>"
    by (simp_all add: c'_def evicted_def split: option.splits)
  have pk: "Peek c' k = Inr ((None, False), c')" by (simp add: Peek_def f)
  have ent: "entries c' = remove1 \<lparr> key = k, value' = v \<rparr> (entries c)"
    using entries_remove1[OF inv e(2,3)] by (simp add: entries_def[of c'] f)
  have len: "Suc (length (evictList c')) = length (evictList c)"
    using e(2) length_pos_if_in_set[OF e(2)] by (simp add: f length_remove1)
  show "\<exists>c'. Remove c k = Inr c' \<and> Peek c' k = Inr ((None, False), c')
          \<and> items c' = (items c)(k := None)
          \<and> entries c' = remove1 \<lparr> key = k, value' = v \<rparr> (entries c)
          \<and> Suc (length (evictList c')) = length (evictList c)
          \<and> world c' = (case onEvicted c of None \<Rightarrow> world c | Some f \<Rightarrow> f k v (world c))
          \<and> metrics c' = (metrics c)\<lparr> evictions := Suc (evictions (metrics c)) \<rparr>"
    apply (rule exI[of _ c'])
    using r pk f(1) ent len f(4,5) apply (intro conjI)
          apply assumption+
    done
qed

text \<open>The theorem at work on the example run.\<close>

theorem Remove_present_or_absent_witness:
  "reachable demo_one
   \<and> Peek demo_one 2 = Inr ((None, False), demo_one) \<and> Remove demo_one 2 = Inr demo_one
   \<and> Peek demo_one 1 = Inr ((Some 10, True), demo_one)
   \<and> (\<exists>c'. Remove demo_one 1 = Inr c' \<and> Peek c' 1 = Inr ((None, False), c')
         \<and> items c' = Map.empty \<and> entries c' = [] \<and> evictList c' = []
         \<and> world c' = [(1, 10)]
         \<and> metrics c' = \<lparr> hits = 0, misses = 0, evictions = 1 \<rparr>)"
proof -
  note t = Remove_present_or_absent[OF demo_one_reachable]
  from t[of 2] demo_one_Peek(2) have a: "Remove demo_one 2 = Inr demo_one" by blast
  from t[of 1] demo_one_Peek(1) obtain c' where c': "Remove demo_one 1 = Inr c'"
    "Peek c' 1 = Inr ((None, False), c')"
    "items c' = (items demo_one)(1 := None)"
    "entries c' = remove1 \<lparr> key = 1, value' = 10 \<rparr> (entries demo_one)"
    "Suc (length (evictList c')) = length (evictList demo_one)"
    "world c' = (case onEvicted demo_one of None \<Rightarrow> world demo_one
                 | Some f \<Rightarrow> f 1 10 (world demo_one))"
    "metrics c' = (metrics demo_one)\<lparr> evictions := Suc (evictions (metrics demo_one)) \<rparr>"
    by blast
  have ent: "entries demo_one = [\<lparr> key = 1, value' = 10 \<rparr>]"
    by (simp add: entries_def demo_one_fields)
  from c'(3,4,5,6,7) have "items c' = Map.empty" "entries c' = []" "evictList c' = []"
    "world c' = [(1, 10)]" "metrics c' = \<lparr> hits = 0, misses = 0, evictions = 1 \<rparr>"
    by (simp_all add: ent demo_one_fields)
  with c'(1,2) a demo_one_reachable demo_one_Peek show ?thesis by blast
qed

subsection \<open>Purge and Close\<close>







subsection \<open>Recency\<close>














section \<open>Properties of the collector\<close>

lemma send_one_label:
  "send (Inr ms) (MustNewConstMetric d t x [l]) =
     (if length (variableLabels d) = 1
      then Inr (ms @ [\<lparr> desc = d, valueType = t, sampleValue = x, labelValues = [l] \<rparr>])
      else Inl InconsistentCardinality)"
  by (simp add: send_def MustNewConstMetric_def)

lemmas desc_defs = descBPFMemlock_def descBPFMapKeySize_def descBPFMapValueSize_def
  descBPFMapMaxEntries_def descNativeUnwinderTotalSamples_def descNativeUnwinderSuccess_def
  descNativeUnwinderErrors_def

lemma desc_one_label:
  "length (variableLabels descBPFMemlock) = 1"
  "length (variableLabels descBPFMapKeySize) = 1"
  "length (variableLabels descBPFMapValueSize) = 1"
  "length (variableLabels descBPFMapMaxEntries) = 1"
  "length (variableLabels descNativeUnwinderTotalSamples) = 1"
  "length (variableLabels descNativeUnwinderSuccess) = 1"
  "length (variableLabels descNativeUnwinderErrors) = 1"
  by (simp_all add: desc_defs NewDesc_def)

text \<open>No call of \<open>MustNewConstMetric\<close> in the collector panics: each passes one label value
  for a descriptor with one variable label.\<close>

lemma collectBPFMetrics_Inr: "collectBPFMetrics b (Inr ms) = Inr (ms @ bpfMapMetrics b)"
  by (simp add: collectBPFMetrics_def Let_def send_one_label desc_one_label bpfMapMetrics_def)

lemma fold_collectBPFMetrics:
  "fold collectBPFMetrics bs (Inr ms) = Inr (ms @ concat (map bpfMapMetrics bs))"
  by (induction bs arbitrary: ms) (simp_all add: collectBPFMetrics_Inr)

lemma collectUnwinderStatistics_eq:
  "collectUnwinderStatistics c ch =
     (fst (getUnwinderStats c), Inr (ch @ unwinderMetrics (snd (getUnwinderStats c))))"
  by (simp add: collectUnwinderStatistics_def Let_def send_one_label desc_one_label
      unwinderMetrics_def split: prod.splits)

lemma Collect_eq:
  "Collect c ch =
     (fst (getUnwinderStats c),
      Inr (ch @ concat (map bpfMapMetrics (getBPFMetrics c))
              @ unwinderMetrics (snd (getUnwinderStats c))))"
  by (simp add: Collect_def fold_collectBPFMetrics collectUnwinderStatistics_eq)

text \<open>
  C1, as stated, fails. With no BPF maps and a failing \<open>readCounters\<close>, \<open>Collect\<close> sends
  the ten measurements of the native-unwinder source, built from the zero statistics
  record, instead of sending none.
\<close>

theorem Collect_emits_zeros_on_read_failure:
  "snd (Collect \<lparr> logger = [], getBPFMetrics = ([] :: nat bpfMetrics list),
                  readCounters = (zeroStats :: nat unwinderStats, Some ''boom'') \<rparr> [])
     = Inr (unwinderMetrics zeroStats)
   \<and> unwinderMeasurements (unwinderMetrics (zeroStats :: nat unwinderStats) :: (nat, nat) Metric list)
     = unwinderMetrics zeroStats
   \<and> length (unwinderMetrics (zeroStats :: nat unwinderStats) :: (nat, nat) Metric list) = 10"
  by (simp add: Collect_eq getUnwinderStats_def unwinderMeasurements_def unwinderMetrics_def)

text \<open>
  C1, amended: whenever \<open>readCounters\<close> fails with an error \<open>err\<close>, \<open>Collect\<close> returns
  without a panic, logs the error, sends the four measurements of every BPF map, and then
  sends the ten native-unwinder measurements with the values of the zero statistics
  record (whatever statistics the failed read returned beside the error).
\<close>

theorem Collect_read_failure:
  "Collect (c\<lparr> readCounters := (stats, Some err) \<rparr>) ch =
     (c\<lparr> readCounters := (stats, Some err),
         logger := logger c @ [ErrorLine ''readPerCpuCounter failed'' err] \<rparr>,
      Inr (ch @ concat (map bpfMapMetrics (getBPFMetrics c)) @ unwinderMetrics zeroStats))"
  by (simp add: Collect_eq getUnwinderStats_def)

end
